theory Spec2Isabelle
  imports Main
begin

section \<open>The host IR, as far as LICMNA.cpp reads and writes it\<close>

text \<open>
  Blocks, instructions and loops are C++ objects handled through pointers; the model names
  them by natural numbers.  An instruction's opcode and operand list never change during
  the pass; what changes is the order of the instruction lists of the blocks and the
  parent pointer of a moved instruction.
\<close>

type_synonym bid = nat
type_synonym iid = nat
type_synonym lid = nat

text \<open>The opcode groups of llvm/IR/Instruction.def.\<close>

datatype term_op = Ret | Br | Switch | IndirectBr | Invoke | Resume | Unreachable
  | CleanupRet | CatchRet | CatchSwitch

datatype unary_op = FNeg

datatype binary_op = Add | FAdd | Sub | FSub | Mul | FMul | UDiv | SDiv | FDiv
  | URem | SRem | FRem | Shl | LShr | AShr | And | Or | Xor

datatype memory_op = Alloca | Load | Store | GetElementPtr | Fence | AtomicCmpXchg
  | AtomicRMW

datatype cast_op = Trunc | ZExt | SExt | FPToUI | FPToSI | UIToFP | SIToFP | FPTrunc
  | FPExt | PtrToInt | IntToPtr | BitCast | AddrSpaceCast

datatype other_op = CleanupPad | CatchPad | ICmp | FCmp | PHI | Call | Select | UserOp1
  | UserOp2 | VAArg | ExtractElement | InsertElement | ShuffleVector | ExtractValue
  | InsertValue | LandingPad

datatype opcode = TermOp term_op | UnaryOp unary_op | BinaryOp binary_op
  | MemoryOp memory_op | CastOp cast_op | OtherOp other_op

text \<open>
  A \<open>Value\<close> used as an operand: a \<open>Constant\<close>, an \<open>Instruction\<close>, or one of the
  remaining kinds (function argument, block label).
\<close>

datatype val = VConstant nat | VArgument nat | VBlock bid | VInstruction iid

record instruction =
  opcode :: opcode
  operands :: "val list"

text \<open>
  The function being transformed: the instruction list of every block
  (\<open>BasicBlock::getInstList\<close>), the parent pointer of every instruction
  (\<open>Instruction::getParent\<close>) and the instruction table.
\<close>

record func =
  insts :: "bid \<Rightarrow> iid list"
  parent :: "iid \<Rightarrow> bid"
  instr :: "iid \<Rightarrow> instruction"

text \<open>
  A \<open>Loop\<close>: its identity (the pointer \<open>L\<close>), the result of \<open>getLoopPreheader\<close>
  (\<open>None\<close> for \<open>nullptr\<close>), its member blocks (\<open>contains\<close>) and the result of
  \<open>getUniqueExitBlocks\<close>.
\<close>

record loop =
  loop_id :: lid
  preheader :: "bid option"
  blocks :: "bid list"
  exits :: "bid list"

text \<open>
  The \<open>DominatorTree\<close>: the sequence of blocks that
  \<open>GraphTraits<DominatorTree *>::nodes_begin\<close> .. \<open>nodes_end\<close> enumerates (a depth-first
  walk from the root node) and the predicate \<open>dominates\<close> on blocks.
\<close>

record domtree =
  nodes :: "bid list"
  dominates :: "bid \<Rightarrow> bid \<Rightarrow> bool"

text \<open>\<open>LoopInfo::getLoopFor\<close>: the innermost loop a block belongs to, if any.\<close>

type_synonym loopinfo = "bid \<Rightarrow> lid option"

subsection \<open>The accessors of the host IR that the pass calls\<close>

fun isTerminator :: "opcode \<Rightarrow> bool" where
  "isTerminator (TermOp _) = True"
| "isTerminator _ = False"

fun isBinaryOp :: "opcode \<Rightarrow> bool" where
  "isBinaryOp (BinaryOp _) = True"
| "isBinaryOp _ = False"

fun isShift :: "opcode \<Rightarrow> bool" where
  "isShift (BinaryOp Shl) = True"
| "isShift (BinaryOp LShr) = True"
| "isShift (BinaryOp AShr) = True"
| "isShift _ = False"

fun isCast :: "opcode \<Rightarrow> bool" where
  "isCast (CastOp _) = True"
| "isCast _ = False"

fun isa_SelectInst :: "opcode \<Rightarrow> bool" where
  "isa_SelectInst (OtherOp Select) = True"
| "isa_SelectInst _ = False"

fun isa_GetElementPtrInst :: "opcode \<Rightarrow> bool" where
  "isa_GetElementPtrInst (MemoryOp GetElementPtr) = True"
| "isa_GetElementPtrInst _ = False"

fun isa_Constant :: "val \<Rightarrow> bool" where
  "isa_Constant (VConstant _) = True"
| "isa_Constant _ = False"

definition contains :: "loop \<Rightarrow> bid \<Rightarrow> bool" where
  "contains L BB = (BB \<in> set (blocks L))"

text \<open>
  \<open>Loop::isLoopInvariant(Value *)\<close>: an instruction is invariant when its parent block is
  not in the loop; every other value is invariant.
\<close>

fun Loop_isLoopInvariant :: "loop \<Rightarrow> func \<Rightarrow> val \<Rightarrow> bool" where
  "Loop_isLoopInvariant L g (VInstruction j) = (\<not> contains L (parent g j))"
| "Loop_isLoopInvariant L g _ = True"

text \<open>
  \<open>BasicBlock::getTerminator\<close>: the last instruction of the block when it is a
  terminator, \<open>nullptr\<close> otherwise.
\<close>

definition getTerminator :: "func \<Rightarrow> bid \<Rightarrow> iid option" where
  "getTerminator g BB =
     (case rev (insts g BB) of
        [] \<Rightarrow> None
      | t # _ \<Rightarrow> if isTerminator (opcode (instr g t)) then Some t else None)"

text \<open>
  The successors of a block are the labels its terminator names; a block without a
  terminator has none.
\<close>

fun labels :: "val list \<Rightarrow> bid list" where
  "labels [] = []"
| "labels (VBlock b # vs) = b # labels vs"
| "labels (_ # vs) = labels vs"

definition successors :: "func \<Rightarrow> bid \<Rightarrow> bid list" where
  "successors g BB =
     (case getTerminator g BB of
        None \<Rightarrow> []
      | Some t \<Rightarrow> labels (operands (instr g t)))"

text \<open>
  An iterator of an instruction list points at an instruction or at the end sentinel of
  one block.  Incrementing follows the list the instruction is linked in at that moment.
\<close>

datatype iter = Node iid | End bid

definition block_begin :: "func \<Rightarrow> bid \<Rightarrow> iter" where
  "block_begin g BB = (case insts g BB of [] \<Rightarrow> End BB | i # _ \<Rightarrow> Node i)"

definition block_end :: "bid \<Rightarrow> iter" where
  "block_end BB = End BB"

definition iter_next :: "func \<Rightarrow> iid \<Rightarrow> iter" where
  "iter_next g i =
     (case dropWhile (\<lambda>j. j \<noteq> i) (insts g (parent g i)) of
        _ # j # _ \<Rightarrow> Node j
      | _ \<Rightarrow> End (parent g i))"

text \<open>
  \<open>Instruction::moveBefore(MovePos)\<close> splices the instruction out of its list and into
  the list of \<open>MovePos\<close>, directly in front of \<open>MovePos\<close>, and sets its parent.  Splicing
  an instruction in front of itself changes nothing.
\<close>

definition insert_before :: "iid \<Rightarrow> iid \<Rightarrow> iid list \<Rightarrow> iid list" where
  "insert_before pos i xs = takeWhile (\<lambda>j. j \<noteq> pos) xs @ i # dropWhile (\<lambda>j. j \<noteq> pos) xs"

definition moveBefore :: "func \<Rightarrow> iid \<Rightarrow> iid \<Rightarrow> func" where
  "moveBefore g i pos =
     (if i = pos then g
      else
        let src = parent g i;
            dst = parent g pos;
            unlinked = (insts g)(src := remove1 i (insts g src))
        in g\<lparr>insts := unlinked(dst := insert_before pos i (unlinked dst)),
             parent := (parent g)(i := dst)\<rparr>)"

section \<open>The invariance classifier and the safety checker\<close>

definition checkInstructionType :: "instruction \<Rightarrow> bool" where
  "checkInstructionType I =
     (isBinaryOp (opcode I) \<or> isShift (opcode I) \<or> isa_SelectInst (opcode I)
      \<or> isCast (opcode I) \<or> isa_GetElementPtrInst (opcode I))"

text \<open>The loop over the operands returns false at the first operand that is not invariant.\<close>

fun operands_loop :: "loop \<Rightarrow> func \<Rightarrow> val list \<Rightarrow> bool" where
  "operands_loop L g [] = True"
| "operands_loop L g (V # Vs) =
     (if \<not> isa_Constant V \<and> \<not> Loop_isLoopInvariant L g V then False
      else operands_loop L g Vs)"

definition checkInstructionOperands :: "loop \<Rightarrow> func \<Rightarrow> iid \<Rightarrow> bool" where
  "checkInstructionOperands L g I = operands_loop L g (operands (instr g I))"

definition isLoopInvariant :: "loop \<Rightarrow> func \<Rightarrow> iid \<Rightarrow> bool" where
  "isLoopInvariant L g I =
     (checkInstructionType (instr g I) \<and> checkInstructionOperands L g I)"

text \<open>
  \<open>dominatesExits\<close>: the accumulator starts as \<open>false\<close> and \<open>Dominates &= d\<close> stores the
  conjunction of the accumulator with each exit's answer.
\<close>

fun exits_loop :: "domtree \<Rightarrow> bid \<Rightarrow> bid list \<Rightarrow> bool \<Rightarrow> bool" where
  "exits_loop DT Parent [] Dominates = Dominates"
| "exits_loop DT Parent (BB # Exits) Dominates =
     exits_loop DT Parent Exits (Dominates \<and> dominates DT Parent BB)"

definition dominatesExits :: "loop \<Rightarrow> domtree \<Rightarrow> func \<Rightarrow> iid \<Rightarrow> bool" where
  "dominatesExits L DT g I = exits_loop DT (parent g I) (exits L) False"

text \<open>
  \<open>isSafeToSpeculativelyExecute\<close> belongs to the host's value-tracking analysis; it is a
  parameter \<open>spec\<close> of the model, a predicate on instructions.
\<close>

definition safeToHoist :: "(iid \<Rightarrow> bool) \<Rightarrow> loop \<Rightarrow> domtree \<Rightarrow> func \<Rightarrow> iid \<Rightarrow> bool" where
  "safeToHoist spec L DT g I = (spec I \<or> dominatesExits L DT g I)"

section \<open>The hoisting driver\<close>

text \<open>
  The pass has no check of its own for a null pointer or for an iterator that left its
  list: dereferencing either stops the run.  The model records which of the two happened
  and the state reached at that moment.
\<close>

datatype fault = NullDereference | SentinelDereference

text \<open>
  What \<open>hoistInstructions\<close> reads and writes: its result flag \<open>Modified\<close>, the vector
  \<open>Instructions\<close> it appends to, and the function it mutates.  The field \<open>examined\<close>
  is not a variable of the pass: it logs every instruction that the inner loop binds to
  \<open>I\<close>, in order.
\<close>

record hstate =
  Modified :: bool
  Instructions :: "iid list"
  F :: func
  examined :: "iid list"

type_synonym outcome = "(fault \<times> hstate) + hstate"

text \<open>
  The conditional of the inner loop.  \<open>Destination\<close> is \<open>None\<close> when the preheader has
  no terminator; \<open>moveBefore\<close> then dereferences a null pointer.
\<close>

definition hoist_body ::
  "(iid \<Rightarrow> bool) \<Rightarrow> loop \<Rightarrow> domtree \<Rightarrow> iid option \<Rightarrow> hstate \<Rightarrow> iid \<Rightarrow> outcome" where
  "hoist_body spec L DT Destination s I =
     (if isLoopInvariant L (F s) I \<and> safeToHoist spec L DT (F s) I then
        (case Destination of
           None \<Rightarrow> Inl (NullDereference, s\<lparr>Modified := True\<rparr>)
         | Some D \<Rightarrow>
             Inr (s\<lparr>Modified := True,
                    F := moveBefore (F s) I D,
                    Instructions := Instructions s @ [I]\<rparr>))
      else Inr s)"

text \<open>
  The loop over the instructions of one block.  The iterator is advanced in the state
  before the body runs, as in the source; the loop ends when the iterator is the end
  sentinel of \<open>BB\<close> itself.  Nothing bounds the number of rounds, so the result is an
  option: \<open>None\<close> stands for a run that never leaves the loop.
\<close>

partial_function (option) block_loop ::
  "(iid \<Rightarrow> bool) \<Rightarrow> loop \<Rightarrow> domtree \<Rightarrow> iid option \<Rightarrow> bid \<Rightarrow> iter \<Rightarrow> hstate
     \<Rightarrow> outcome option"
where
  "block_loop spec L DT Destination BB it s =
     (if it = block_end BB then Some (Inr s)
      else
        case it of
          End b \<Rightarrow> Some (Inl (SentinelDereference, s))
        | Node I \<Rightarrow>
            let it' = iter_next (F s) I;
                s1 = s\<lparr>examined := examined s @ [I]\<rparr>
            in case hoist_body spec L DT Destination s1 I of
                 Inl e \<Rightarrow> Some (Inl e)
               | Inr s' \<Rightarrow> block_loop spec L DT Destination BB it' s')"

declare block_loop.simps [code]

definition isInSubLoop :: "loop \<Rightarrow> loopinfo \<Rightarrow> bid \<Rightarrow> bool" where
  "isInSubLoop L LI BB = (let ParentLoop = LI BB in Some (loop_id L) \<noteq> ParentLoop)"

text \<open>The loop over the nodes of the dominator tree; the tree is not modified.\<close>

fun nodes_loop ::
  "(iid \<Rightarrow> bool) \<Rightarrow> loop \<Rightarrow> domtree \<Rightarrow> loopinfo \<Rightarrow> iid option \<Rightarrow> bid list \<Rightarrow> hstate
     \<Rightarrow> outcome option"
where
  "nodes_loop spec L DT LI Destination [] s = Some (Inr s)"
| "nodes_loop spec L DT LI Destination (BB # rest) s =
     (if \<not> contains L BB \<or> isInSubLoop L LI BB then
        nodes_loop spec L DT LI Destination rest s
      else
        case block_loop spec L DT Destination BB (block_begin (F s) BB) s of
          None \<Rightarrow> None
        | Some (Inl e) \<Rightarrow> Some (Inl e)
        | Some (Inr s') \<Rightarrow> nodes_loop spec L DT LI Destination rest s')"

text \<open>
  \<open>hoistInstructions\<close>: the preheader pointer is dereferenced first, before any block is
  looked at.
\<close>

definition hoistInstructions ::
  "(iid \<Rightarrow> bool) \<Rightarrow> loop \<Rightarrow> domtree \<Rightarrow> loopinfo \<Rightarrow> func \<Rightarrow> iid list \<Rightarrow> outcome option" where
  "hoistInstructions spec L DT LI g Instrs =
     (let s0 = \<lparr>Modified = False, Instructions = Instrs, F = g, examined = []\<rparr> in
      case preheader L of
        None \<Rightarrow> Some (Inl (NullDereference, s0))
      | Some P \<Rightarrow>
          let Destination = getTerminator g P
          in nodes_loop spec L DT LI Destination (nodes DT) s0)"

text \<open>\<open>runOnLoop\<close> starts from an empty vector (printing is left out).\<close>

definition runOnLoop ::
  "(iid \<Rightarrow> bool) \<Rightarrow> loop \<Rightarrow> domtree \<Rightarrow> loopinfo \<Rightarrow> func \<Rightarrow> outcome option" where
  "runOnLoop spec L DT LI g = hoistInstructions spec L DT LI g []"

section \<open>Notions used to state the properties of the pass\<close>

text \<open>
  The lists of the blocks are duplicate-free and agree with the parent pointers: every
  instruction is linked in at most one place.
\<close>

definition linked :: "func \<Rightarrow> bool" where
  "linked g = (\<forall>b. distinct (insts g b) \<and> (\<forall>i \<in> set (insts g b). parent g i = b))"

text \<open>
  The retained blocks of a run are the loop members whose innermost loop is the loop
  itself; the traversal is the sequence of their instructions, block after block in the
  order of the dominator tree, read off the function as it is before the run.
\<close>

definition retained :: "loop \<Rightarrow> loopinfo \<Rightarrow> bid \<Rightarrow> bool" where
  "retained L LI BB = (contains L BB \<and> \<not> isInSubLoop L LI BB)"

definition visit_order :: "loop \<Rightarrow> loopinfo \<Rightarrow> func \<Rightarrow> bid list \<Rightarrow> iid list" where
  "visit_order L LI g ns = concat (map (insts g) (filter (retained L LI) ns))"

definition traversal :: "loop \<Rightarrow> domtree \<Rightarrow> loopinfo \<Rightarrow> func \<Rightarrow> iid list" where
  "traversal L DT LI g = visit_order L LI g (nodes DT)"

text \<open>
  The form of the input that the pass relies on: a well-linked function, a
  dominator tree that lists no block twice, and a preheader that exists, lies outside the
  loop and ends in a terminator \<open>D\<close>.
\<close>

definition simplified_form :: "loop \<Rightarrow> domtree \<Rightarrow> func \<Rightarrow> bid \<Rightarrow> iid \<Rightarrow> bool" where
  "simplified_form L DT g P D =
     (linked g \<and> distinct (nodes DT) \<and> preheader L = Some P \<and> \<not> contains L P
      \<and> getTerminator g P = Some D)"

text \<open>
  Every use of an instruction result by an instruction of an eligible type comes later in
  the traversal than the definition (definitions dominate uses; only PHI nodes, which are
  not eligible, may use a value defined later).
\<close>

fun defs_before_uses :: "func \<Rightarrow> iid list \<Rightarrow> bool" where
  "defs_before_uses g [] = True"
| "defs_before_uses g (i # rest) =
     ((checkInstructionType (instr g i) \<longrightarrow>
         (\<forall>j \<in> set (i # rest). VInstruction j \<notin> set (operands (instr g i))))
      \<and> defs_before_uses g rest)"

text \<open>
  Every block that has instructions ends in a terminator.
\<close>

definition blocks_terminated :: "func \<Rightarrow> bool" where
  "blocks_terminated g =
     (\<forall>b. insts g b \<noteq> [] \<longrightarrow> isTerminator (opcode (instr g (last (insts g b)))))"

text \<open>
  The function after the instructions \<open>H\<close> have been moved, in this order, in front of
  the terminator \<open>D\<close> of the block \<open>P\<close>.
\<close>

definition relocated :: "func \<Rightarrow> bid \<Rightarrow> iid \<Rightarrow> iid list \<Rightarrow> func" where
  "relocated g P D H =
     g\<lparr>insts := (\<lambda>b. if b = P
                      then takeWhile (\<lambda>j. j \<noteq> D) (insts g P) @ H @ dropWhile (\<lambda>j. j \<noteq> D) (insts g P)
                      else filter (\<lambda>i. i \<notin> set H) (insts g b)),
       parent := (\<lambda>i. if i \<in> set H then P else parent g i)\<rparr>"

text \<open>
  The run of the pass seen as one pass over a list of instructions: \<open>H\<close> collects the
  instructions moved so far, and an instruction is added when the two checks accept it in
  the function reached by then.
\<close>

definition hoistable :: "(iid \<Rightarrow> bool) \<Rightarrow> loop \<Rightarrow> domtree \<Rightarrow> func \<Rightarrow> iid \<Rightarrow> bool" where
  "hoistable spec L DT g I = (isLoopInvariant L g I \<and> safeToHoist spec L DT g I)"

definition pick ::
  "(iid \<Rightarrow> bool) \<Rightarrow> loop \<Rightarrow> domtree \<Rightarrow> func \<Rightarrow> bid \<Rightarrow> iid \<Rightarrow> iid list \<Rightarrow> iid \<Rightarrow> iid list" where
  "pick spec L DT g P D H I =
     (if hoistable spec L DT (relocated g P D H) I then H @ [I] else H)"

definition picks ::
  "(iid \<Rightarrow> bool) \<Rightarrow> loop \<Rightarrow> domtree \<Rightarrow> func \<Rightarrow> bid \<Rightarrow> iid \<Rightarrow> iid list \<Rightarrow> iid list \<Rightarrow> iid list" where
  "picks spec L DT g P D H xs = foldl (pick spec L DT g P D) H xs"

text \<open>
  The state of the pass after it has moved \<open>H\<close> and bound \<open>E\<close>, and the iterator that
  stands in front of the remaining instructions \<open>xs\<close> of a block.
\<close>

definition reached :: "func \<Rightarrow> bid \<Rightarrow> iid \<Rightarrow> iid list \<Rightarrow> iid list \<Rightarrow> iid list \<Rightarrow> hstate" where
  "reached g P D Instrs H E =
     \<lparr>Modified = (H \<noteq> []), Instructions = Instrs @ H, F = relocated g P D H, examined = E\<rparr>"

definition cursor :: "bid \<Rightarrow> iid list \<Rightarrow> iter" where
  "cursor BB xs = (case xs of [] \<Rightarrow> End BB | y # _ \<Rightarrow> Node y)"

subsection \<open>A loop with one block\<close>

text \<open>
  Block 0 is the preheader, block 1 is the loop (its own header and latch), block 2 is
  the exit:
  \<^verbatim>\<open>
  0:  br label 1
  1:  %1 = phi [0, %5]
      %2 = add a, b
      %3 = mul %2, c
      %4 = udiv a, b
      %5 = add %1, %3
      %6 = load p
      %7 = icmp %5, 10
      br %7, label 1, label 2
  2:  ret %5
  \<close>
  The division and the load are not safe to execute speculatively.
\<close>

definition ex_instr :: "iid \<Rightarrow> instruction" where
  "ex_instr i =
     (if i = 0 then \<lparr>opcode = TermOp Br, operands = [VBlock 1]\<rparr>
      else if i = 1 then \<lparr>opcode = OtherOp PHI, operands = [VConstant 0, VInstruction 5]\<rparr>
      else if i = 2 then \<lparr>opcode = BinaryOp Add, operands = [VArgument 0, VArgument 1]\<rparr>
      else if i = 3 then \<lparr>opcode = BinaryOp Mul, operands = [VInstruction 2, VArgument 2]\<rparr>
      else if i = 4 then \<lparr>opcode = BinaryOp UDiv, operands = [VArgument 0, VArgument 1]\<rparr>
      else if i = 5 then \<lparr>opcode = BinaryOp Add, operands = [VInstruction 1, VInstruction 3]\<rparr>
      else if i = 6 then \<lparr>opcode = MemoryOp Load, operands = [VArgument 3]\<rparr>
      else if i = 7 then \<lparr>opcode = OtherOp ICmp, operands = [VInstruction 5, VConstant 10]\<rparr>
      else if i = 8 then
        \<lparr>opcode = TermOp Br, operands = [VInstruction 7, VBlock 1, VBlock 2]\<rparr>
      else \<lparr>opcode = TermOp Ret, operands = [VInstruction 5]\<rparr>)"

definition ex_func :: func where
  "ex_func =
     \<lparr>insts = (\<lambda>_. [])(0 := [0], 1 := [1, 2, 3, 4, 5, 6, 7, 8], 2 := [9]),
      parent = (\<lambda>i. if i = 0 then 0 else if i \<le> 8 then 1 else 2),
      instr = ex_instr\<rparr>"

definition ex_loop :: loop where
  "ex_loop = \<lparr>loop_id = 0, preheader = Some 0, blocks = [1], exits = [2]\<rparr>"

definition ex_dt :: domtree where
  "ex_dt = \<lparr>nodes = [0, 1, 2], dominates = (\<lambda>a b. a \<le> b)\<rparr>"

definition ex_li :: loopinfo where
  "ex_li = (\<lambda>_. None)(1 := Some 0)"

definition ex_spec :: "iid \<Rightarrow> bool" where
  "ex_spec i = (i \<noteq> 4 \<and> i \<noteq> 6)"

section \<open>The run of the pass is one pass over the traversal\<close>

lemma relocated_Nil: "relocated g P D [] = g"
  by (rule func.equality) (simp_all add: relocated_def fun_eq_iff)

lemma filter_neq_absent: "x \<notin> set xs \<Longrightarrow> filter (\<lambda>y. y \<noteq> x) xs = xs"
  by (induction xs) auto

lemma remove1_filter_distinct: "distinct xs \<Longrightarrow> remove1 x xs = filter (\<lambda>y. y \<noteq> x) xs"
  by (induction xs) (auto simp: filter_neq_absent)

lemma dropWhile_hd: "D \<in> set xs \<Longrightarrow> \<exists>zs. dropWhile (\<lambda>j. j \<noteq> D) xs = D # zs"
  by (induction xs) auto

lemma takeWhile_pos:
  assumes "D \<in> set xs" and "D \<notin> set H"
  shows "takeWhile (\<lambda>j. j \<noteq> D) (takeWhile (\<lambda>j. j \<noteq> D) xs @ H @ dropWhile (\<lambda>j. j \<noteq> D) xs)
          = takeWhile (\<lambda>j. j \<noteq> D) xs @ H"
proof -
  obtain zs where z: "dropWhile (\<lambda>j. j \<noteq> D) xs = D # zs"
    using dropWhile_hd [OF assms(1)] by blast
  have "\<forall>x \<in> set (takeWhile (\<lambda>j. j \<noteq> D) xs @ H). x \<noteq> D"
    using assms(2) by (auto dest: set_takeWhileD)
  then show ?thesis
    unfolding z using takeWhile_append2 [of "takeWhile (\<lambda>j. j \<noteq> D) xs @ H" "\<lambda>j. j \<noteq> D" "D # zs"]
    by simp
qed

lemma dropWhile_pos:
  assumes "D \<in> set xs" and "D \<notin> set H"
  shows "dropWhile (\<lambda>j. j \<noteq> D) (takeWhile (\<lambda>j. j \<noteq> D) xs @ H @ dropWhile (\<lambda>j. j \<noteq> D) xs)
          = dropWhile (\<lambda>j. j \<noteq> D) xs"
proof -
  obtain zs where z: "dropWhile (\<lambda>j. j \<noteq> D) xs = D # zs"
    using dropWhile_hd [OF assms(1)] by blast
  have "\<forall>x \<in> set (takeWhile (\<lambda>j. j \<noteq> D) xs @ H). x \<noteq> D"
    using assms(2) by (auto dest: set_takeWhileD)
  then show ?thesis
    unfolding z using dropWhile_append2 [of "takeWhile (\<lambda>j. j \<noteq> D) xs @ H" "\<lambda>j. j \<noteq> D" "D # zs"]
    by simp
qed

lemma insert_before_relocated:
  assumes "D \<in> set xs" and "D \<notin> set H"
  shows "insert_before D I (takeWhile (\<lambda>j. j \<noteq> D) xs @ H @ dropWhile (\<lambda>j. j \<noteq> D) xs)
          = takeWhile (\<lambda>j. j \<noteq> D) xs @ (H @ [I]) @ dropWhile (\<lambda>j. j \<noteq> D) xs"
  unfolding insert_before_def takeWhile_pos [OF assms] dropWhile_pos [OF assms] by simp

lemma moveBefore_relocated:
  assumes lk: "linked g" and D: "D \<in> set (insts g P)" and IH: "I \<notin> set H"
    and IP: "parent g I \<noteq> P" and HP: "\<forall>h \<in> set H. parent g h \<noteq> P"
  shows "moveBefore (relocated g P D H) I D = relocated g P D (H @ [I])"
proof -
  have pD: "parent g D = P" using lk D by (auto simp: linked_def)
  have DH: "D \<notin> set H" using HP pD by auto
  have ID: "I \<noteq> D" using IP pD by auto
  have dist: "\<And>b. distinct (insts g b)" using lk by (simp add: linked_def)
  have par: "\<And>b i. i \<in> set (insts g b) \<Longrightarrow> parent g i = b" using lk by (auto simp: linked_def)
  have InotP: "I \<notin> set (insts g P)" using par IP by auto
  let ?src = "parent g I"
  have src: "remove1 I (filter (\<lambda>i. i \<notin> set H) (insts g ?src))
              = filter (\<lambda>i. i \<notin> set (H @ [I])) (insts g ?src)"
    using dist [of ?src] by (simp add: remove1_filter_distinct conj_commute)
  have other: "\<And>b. b \<noteq> ?src \<Longrightarrow> filter (\<lambda>i. i \<notin> set (H @ [I])) (insts g b)
                        = filter (\<lambda>i. i \<notin> set H) (insts g b)"
    using par by (auto intro!: filter_cong)
  have "insts (moveBefore (relocated g P D H) I D) = insts (relocated g P D (H @ [I]))"
  proof
    fix b
    show "insts (moveBefore (relocated g P D H) I D) b = insts (relocated g P D (H @ [I])) b"
      using ID IH IP DH pD src other [of b] insert_before_relocated [OF D DH, of I]
      by (auto simp: moveBefore_def relocated_def Let_def)
  qed
  moreover have "parent (moveBefore (relocated g P D H) I D) = parent (relocated g P D (H @ [I]))"
    using ID IH DH pD by (auto simp: moveBefore_def relocated_def Let_def fun_eq_iff)
  moreover have "instr (moveBefore (relocated g P D H) I D) = instr (relocated g P D (H @ [I]))"
    by (simp add: moveBefore_def relocated_def Let_def)
  moreover have "func.more (moveBefore (relocated g P D H) I D) = func.more (relocated g P D (H @ [I]))"
    by (simp add: moveBefore_def relocated_def Let_def)
  ultimately show ?thesis by (rule func.equality)
qed

lemma picks_Nil [simp]: "picks spec L DT g P D H [] = H"
  by (simp add: picks_def)

lemma picks_Cons [simp]:
  "picks spec L DT g P D H (x # xs) = picks spec L DT g P D (pick spec L DT g P D H x) xs"
  by (simp add: picks_def)

lemma picks_append:
  "picks spec L DT g P D H (xs @ ys) = picks spec L DT g P D (picks spec L DT g P D H xs) ys"
  by (simp add: picks_def)

lemma set_pick: "set (pick spec L DT g P D H x) \<subseteq> insert x (set H)"
  by (auto simp: pick_def)

lemma set_picks: "set (picks spec L DT g P D H xs) \<subseteq> set H \<union> set xs"
proof (induction xs arbitrary: H)
  case Nil
  show ?case by simp
next
  case (Cons x xs)
  show ?case using Cons.IH [of "pick spec L DT g P D H x"] set_pick [of spec L DT g P D H x]
    by auto
qed

lemma hoist_body_reached:
  assumes "linked g" and "D \<in> set (insts g P)" and "I \<notin> set H"
    and "parent g I \<noteq> P" and "\<forall>h \<in> set H. parent g h \<noteq> P"
  shows "hoist_body spec L DT (Some D) (reached g P D Instrs H E) I
          = Inr (reached g P D Instrs (pick spec L DT g P D H I) E)"
  using moveBefore_relocated [OF assms]
  by (simp add: hoist_body_def pick_def hoistable_def reached_def)

lemma dropWhile_at: "x \<notin> set as \<Longrightarrow> dropWhile (\<lambda>j. j \<noteq> x) (as @ x # bs) = x # bs"
  by (induction as) auto

lemma filter_disjoint: "set H \<inter> set xs = {} \<Longrightarrow> filter (\<lambda>i. i \<notin> set H) xs = xs"
  by (induction xs) auto

lemma iter_next_relocated:
  assumes lk: "linked g" and bb: "insts g BB = ys @ x # xs" and ne: "BB \<noteq> P"
    and dj: "set H \<inter> set (x # xs) = {}"
  shows "iter_next (relocated g P D H) x = cursor BB xs"
proof -
  have px: "parent g x = BB" using lk bb by (auto simp: linked_def)
  have xH: "x \<notin> set H" using dj by auto
  have "distinct (ys @ x # xs)" using lk bb by (metis linked_def)
  then have xys: "x \<notin> set (filter (\<lambda>i. i \<notin> set H) ys)" by auto
  have fx: "filter (\<lambda>i. i \<notin> set H) xs = xs" using dj by (intro filter_disjoint) auto
  have "insts (relocated g P D H) BB = filter (\<lambda>i. i \<notin> set H) ys @ x # xs"
    using ne bb xH fx by (simp add: relocated_def)
  moreover have "parent (relocated g P D H) x = BB" using px xH by (simp add: relocated_def)
  ultimately show ?thesis
    using dropWhile_at [OF xys, of xs]
    by (simp add: iter_next_def cursor_def split: list.splits)
qed

lemma block_loop_reached:
  assumes lk: "linked g" and D: "D \<in> set (insts g P)" and ne: "BB \<noteq> P"
  shows "insts g BB = ys @ xs \<Longrightarrow> set H \<inter> set xs = {} \<Longrightarrow> \<forall>h \<in> set H. parent g h \<noteq> P \<Longrightarrow>
         block_loop spec L DT (Some D) BB (cursor BB xs) (reached g P D Instrs H E)
           = Some (Inr (reached g P D Instrs (picks spec L DT g P D H xs) (E @ xs)))"
proof (induction xs arbitrary: ys H E)
  case Nil
  show ?case
    by (subst block_loop.simps) (simp add: cursor_def block_end_def)
next
  case (Cons x xs)
  have px: "parent g x = BB" using lk Cons.prems(1) by (auto simp: linked_def)
  have xH: "x \<notin> set H" using Cons.prems(2) by auto
  have dist: "distinct (ys @ x # xs)" using lk Cons.prems(1) by (metis linked_def)
  let ?H' = "pick spec L DT g P D H x"
  have nxt: "iter_next (relocated g P D H) x = cursor BB xs"
    by (rule iter_next_relocated [OF lk Cons.prems(1) ne Cons.prems(2)])
  have body: "hoist_body spec L DT (Some D) (reached g P D Instrs H (E @ [x])) x
               = Inr (reached g P D Instrs ?H' (E @ [x]))"
    using px ne by (intro hoist_body_reached [OF lk D xH _ Cons.prems(3)]) simp
  have s1: "(reached g P D Instrs H E)\<lparr>examined := examined (reached g P D Instrs H E) @ [x]\<rparr>
             = reached g P D Instrs H (E @ [x])"
    by (simp add: reached_def)
  have H'1: "set ?H' \<inter> set xs = {}"
    using set_pick [of spec L DT g P D H x] Cons.prems(2) dist by auto
  have H'2: "\<forall>h \<in> set ?H'. parent g h \<noteq> P"
    using set_pick [of spec L DT g P D H x] Cons.prems(3) px ne by auto
  have bb': "insts g BB = (ys @ [x]) @ xs" using Cons.prems(1) by simp
  have F: "F (reached g P D Instrs H E) = relocated g P D H" by (simp add: reached_def)
  show ?case
    apply (subst block_loop.simps)
    apply (simp only: cursor_def list.case block_end_def iter.distinct if_False iter.case Let_def
             F nxt s1 body sum.case)
    using Cons.IH [OF bb' H'1 H'2, of "E @ [x]"]
    apply (simp add: cursor_def)
    done
qed

lemma visit_order_Nil [simp]: "visit_order L LI g [] = []"
  by (simp add: visit_order_def)

lemma visit_order_Cons:
  "visit_order L LI g (BB # ns) =
     (if retained L LI BB then insts g BB @ visit_order L LI g ns else visit_order L LI g ns)"
  by (simp add: visit_order_def)

lemma visit_order_parent:
  "linked g \<Longrightarrow> i \<in> set (visit_order L LI g ns) \<Longrightarrow> parent g i \<in> set ns \<and> retained L LI (parent g i)"
  by (auto simp: visit_order_def linked_def)

lemma block_begin_relocated:
  assumes "BB \<noteq> P" and "set H \<inter> set (insts g BB) = {}"
  shows "block_begin (relocated g P D H) BB = cursor BB (insts g BB)"
  using assms filter_disjoint [OF assms(2)]
  by (simp add: block_begin_def cursor_def relocated_def)

lemma nodes_loop_reached:
  assumes lk: "linked g" and D: "D \<in> set (insts g P)" and nP: "\<not> contains L P"
  shows "distinct ns \<Longrightarrow> set H \<inter> set (visit_order L LI g ns) = {} \<Longrightarrow>
         \<forall>h \<in> set H. parent g h \<noteq> P \<Longrightarrow>
         nodes_loop spec L DT LI (Some D) ns (reached g P D Instrs H E)
           = Some (Inr (reached g P D Instrs (picks spec L DT g P D H (visit_order L LI g ns))
                         (E @ visit_order L LI g ns)))"
proof (induction ns arbitrary: H E)
  case Nil
  show ?case by simp
next
  case (Cons BB ns)
  show ?case
  proof (cases "retained L LI BB")
    case False
    have "set H \<inter> set (visit_order L LI g ns) = {}"
      using Cons.prems(2) False by (simp add: visit_order_Cons)
    moreover have vo: "visit_order L LI g (BB # ns) = visit_order L LI g ns"
      using False by (simp add: visit_order_Cons)
    moreover have "\<not> contains L BB \<or> isInSubLoop L LI BB"
      using False by (simp add: retained_def)
    ultimately show ?thesis
      using Cons.IH [OF _ _ Cons.prems(3), of E] Cons.prems(1)
      by simp
  next
    case True
    then have ne: "BB \<noteq> P" using nP by (auto simp: retained_def)
    let ?xs = "insts g BB"
    let ?H' = "picks spec L DT g P D H ?xs"
    have dj: "set H \<inter> set ?xs = {}" and dj2: "set H \<inter> set (visit_order L LI g ns) = {}"
      using Cons.prems(2) True by (auto simp: visit_order_Cons)
    have blk: "block_loop spec L DT (Some D) BB (block_begin (F (reached g P D Instrs H E)) BB)
                 (reached g P D Instrs H E)
               = Some (Inr (reached g P D Instrs ?H' (E @ ?xs)))"
      using block_loop_reached [OF lk D ne, of "[]" ?xs H spec L DT Instrs E] dj Cons.prems(3)
        block_begin_relocated [OF ne dj, of D]
      by (simp add: reached_def)
    have "set ?xs \<inter> set (visit_order L LI g ns) = {}"
    proof -
      have "\<And>i. i \<in> set ?xs \<Longrightarrow> i \<in> set (visit_order L LI g ns) \<Longrightarrow> False"
      proof -
        fix i assume a: "i \<in> set ?xs" and b: "i \<in> set (visit_order L LI g ns)"
        have "parent g i = BB" using lk a by (auto simp: linked_def)
        moreover have "parent g i \<in> set ns" using visit_order_parent [OF lk b] by simp
        ultimately show False using Cons.prems(1) by simp
      qed
      then show ?thesis by blast
    qed
    then have H'1: "set ?H' \<inter> set (visit_order L LI g ns) = {}"
      using set_picks [of spec L DT g P D H ?xs] dj2 by blast
    have "\<forall>i \<in> set ?xs. parent g i \<noteq> P" using lk ne by (auto simp: linked_def)
    then have H'2: "\<forall>h \<in> set ?H'. parent g h \<noteq> P"
      using set_picks [of spec L DT g P D H ?xs] Cons.prems(3) by blast
    have d: "distinct ns" using Cons.prems(1) by simp
    have vo: "visit_order L LI g (BB # ns) = ?xs @ visit_order L LI g ns"
      using True by (simp add: visit_order_Cons)
    have c: "\<not> (\<not> contains L BB \<or> isInSubLoop L LI BB)"
      using True by (simp add: retained_def)
    show ?thesis
      using c blk Cons.IH [OF d H'1 H'2, of "E @ ?xs"]
      by (simp add: vo picks_append)
  qed
qed

lemma getTerminator_last:
  "getTerminator g P = Some D \<Longrightarrow>
     insts g P = butlast (insts g P) @ [D] \<and> isTerminator (opcode (instr g D))"
  by (cases "insts g P" rule: rev_cases) (auto simp: getTerminator_def split: if_splits)

lemma getTerminator_mem: "getTerminator g P = Some D \<Longrightarrow> D \<in> set (insts g P)"
  using getTerminator_last [of g P D] by (metis in_set_conv_decomp)

lemma hoistInstructions_reached:
  assumes "simplified_form L DT g P D"
  shows "hoistInstructions spec L DT LI g Instrs
          = Some (Inr (reached g P D Instrs (picks spec L DT g P D [] (traversal L DT LI g))
                        (traversal L DT LI g)))"
proof -
  have lk: "linked g" and d: "distinct (nodes DT)" and P: "preheader L = Some P"
    and nP: "\<not> contains L P" and T: "getTerminator g P = Some D"
    using assms by (simp_all add: simplified_form_def)
  have s0: "\<lparr>Modified = False, Instructions = Instrs, F = g, examined = []\<rparr>
             = reached g P D Instrs [] []"
    by (simp add: reached_def relocated_Nil)
  show ?thesis
    using nodes_loop_reached [OF lk getTerminator_mem [OF T] nP d, of "[]" LI spec DT Instrs "[]"]
    by (simp add: hoistInstructions_def P T s0 traversal_def)
qed

section \<open>Facts about the two checks\<close>

lemma exits_loop_False: "exits_loop DT Parent Exits False = False"
  by (induction Exits) simp_all

lemma dominatesExits_False: "dominatesExits L DT g I = False"
  by (simp add: dominatesExits_def exits_loop_False)

lemma safeToHoist_spec: "safeToHoist spec L DT g I = spec I"
  by (simp add: safeToHoist_def dominatesExits_False)

lemma operands_loop_iff:
  "operands_loop L g Vs = (\<forall>V \<in> set Vs. isa_Constant V \<or> Loop_isLoopInvariant L g V)"
  by (induction Vs) auto

lemma operand_kinds:
  "(isa_Constant V \<or> Loop_isLoopInvariant L g V) =
     ((\<exists>c. V = VConstant c) \<or> (\<exists>a. V = VArgument a) \<or> (\<exists>b. V = VBlock b)
      \<or> (\<exists>j. V = VInstruction j \<and> parent g j \<notin> set (blocks L)))"
  by (cases V) (simp_all add: contains_def)

section \<open>Facts about the one-block loop\<close>

lemma ex_simplified: "simplified_form ex_loop ex_dt ex_func 0 0"
  by (simp add: simplified_form_def linked_def ex_func_def ex_loop_def ex_dt_def contains_def
        getTerminator_def ex_instr_def)

lemma ex_traversal: "traversal ex_loop ex_dt ex_li ex_func = [1, 2, 3, 4, 5, 6, 7, 8]"
  by (simp add: traversal_def visit_order_def retained_def contains_def isInSubLoop_def
       ex_loop_def ex_dt_def ex_li_def ex_func_def)

lemma ex_defs_before_uses: "defs_before_uses ex_func (traversal ex_loop ex_dt ex_li ex_func)"
  by (simp add: ex_traversal) (simp add: ex_func_def ex_instr_def checkInstructionType_def)

lemma ex_blocks_terminated: "blocks_terminated ex_func"
  by (simp add: blocks_terminated_def ex_func_def ex_instr_def)

section \<open>The function after the moves, the traversal and the choice of instructions\<close>

lemma instr_relocated [simp]: "instr (relocated g P D H) = instr g"
  by (simp add: relocated_def)

lemma parent_relocated: "parent (relocated g P D H) i = (if i \<in> set H then P else parent g i)"
  by (simp add: relocated_def)

lemma insts_relocated_other:
  "b \<noteq> P \<Longrightarrow> insts (relocated g P D H) b = filter (\<lambda>i. i \<notin> set H) (insts g b)"
  by (simp add: relocated_def)

lemma takeWhile_last: "distinct (xs @ [D]) \<Longrightarrow> takeWhile (\<lambda>j. j \<noteq> D) (xs @ [D]) = xs"
  by (induction xs) auto

lemma dropWhile_last: "distinct (xs @ [D]) \<Longrightarrow> dropWhile (\<lambda>j. j \<noteq> D) (xs @ [D]) = [D]"
  by (induction xs) auto

lemma insts_relocated_preheader:
  assumes "linked g" and "getTerminator g P = Some D"
  shows "insts (relocated g P D H) P = butlast (insts g P) @ H @ [D]"
proof -
  have l: "insts g P = butlast (insts g P) @ [D]"
    using getTerminator_last [OF assms(2)] by simp
  have "distinct (butlast (insts g P) @ [D])"
    using assms(1) l by (metis linked_def)
  then have "takeWhile (\<lambda>j. j \<noteq> D) (insts g P) = butlast (insts g P)"
    and "dropWhile (\<lambda>j. j \<noteq> D) (insts g P) = [D]"
    using takeWhile_last [of "butlast (insts g P)" D] dropWhile_last [of "butlast (insts g P)" D] l
    by simp_all
  then show ?thesis by (simp add: relocated_def)
qed

lemma isLoopInvariant_relocated:
  "isLoopInvariant L (relocated g P D H) x =
     (checkInstructionType (instr g x)
      \<and> (\<forall>V \<in> set (operands (instr g x)).
            isa_Constant V \<or> Loop_isLoopInvariant L (relocated g P D H) V))"
  by (simp add: isLoopInvariant_def checkInstructionOperands_def operands_loop_iff)

lemma hoistable_relocated:
  "hoistable spec L DT (relocated g P D H) x =
     (checkInstructionType (instr g x)
      \<and> (\<forall>V \<in> set (operands (instr g x)).
            isa_Constant V \<or> Loop_isLoopInvariant L (relocated g P D H) V)
      \<and> spec x)"
  by (simp add: hoistable_def isLoopInvariant_relocated safeToHoist_spec)

lemma pick_cases:
  "pick spec L DT g P D H x = H
   \<or> (pick spec L DT g P D H x = H @ [x] \<and> checkInstructionType (instr g x) \<and> spec x)"
  by (auto simp: pick_def hoistable_relocated)

lemma picks_prefix:
  "\<exists>Z. picks spec L DT g P D H xs = H @ Z \<and> set Z \<subseteq> set xs
        \<and> (\<forall>z \<in> set Z. checkInstructionType (instr g z) \<and> spec z)"
proof (induction xs arbitrary: H)
  case Nil
  show ?case by simp
next
  case (Cons x xs)
  let ?H' = "pick spec L DT g P D H x"
  obtain Z where Z: "picks spec L DT g P D ?H' xs = ?H' @ Z" "set Z \<subseteq> set xs"
    "\<forall>z \<in> set Z. checkInstructionType (instr g z) \<and> spec z"
    using Cons.IH [of ?H'] by blast
  from pick_cases [of spec L DT g P D H x] show ?case
  proof
    assume "?H' = H"
    then show ?thesis using Z by (intro exI [of _ Z]) auto
  next
    assume a: "?H' = H @ [x] \<and> checkInstructionType (instr g x) \<and> spec x"
    then show ?thesis using Z by (intro exI [of _ "x # Z"]) auto
  qed
qed

lemma visit_order_disjoint:
  assumes "linked g" and "BB \<notin> set ns"
  shows "set (insts g BB) \<inter> set (visit_order L LI g ns) = {}"
proof -
  have "\<And>i. i \<in> set (insts g BB) \<Longrightarrow> i \<in> set (visit_order L LI g ns) \<Longrightarrow> False"
  proof -
    fix i assume a: "i \<in> set (insts g BB)" and b: "i \<in> set (visit_order L LI g ns)"
    have "parent g i = BB" using assms(1) a by (auto simp: linked_def)
    moreover have "parent g i \<in> set ns" using visit_order_parent [OF assms(1) b] by simp
    ultimately show False using assms(2) by simp
  qed
  then show ?thesis by blast
qed

lemma visit_order_distinct:
  "linked g \<Longrightarrow> distinct ns \<Longrightarrow> distinct (visit_order L LI g ns)"
proof (induction ns)
  case Nil
  show ?case by simp
next
  case (Cons BB ns)
  have "distinct (insts g BB)" using Cons.prems(1) by (simp add: linked_def)
  moreover have "set (insts g BB) \<inter> set (visit_order L LI g ns) = {}"
    using visit_order_disjoint [OF Cons.prems(1)] Cons.prems(2) by simp
  ultimately show ?case using Cons by (simp add: visit_order_Cons)
qed

lemma traversal_distinct:
  "simplified_form L DT g P D \<Longrightarrow> distinct (traversal L DT LI g)"
  by (simp add: simplified_form_def traversal_def visit_order_distinct)

lemma traversal_parent:
  assumes "simplified_form L DT g P D" and "i \<in> set (traversal L DT LI g)"
  shows "contains L (parent g i) \<and> parent g i \<noteq> P"
proof -
  have "retained L LI (parent g i)"
    using assms visit_order_parent [of g i L LI "nodes DT"]
    by (simp add: simplified_form_def traversal_def)
  then show ?thesis using assms(1) by (auto simp: retained_def simplified_form_def)
qed

lemma count_list_distinct: "distinct xs \<Longrightarrow> x \<in> set xs \<Longrightarrow> count_list xs x = 1"
  by (induction xs) (auto simp: count_list_0_iff)

lemma count_list_distinct_le: "distinct xs \<Longrightarrow> count_list xs x \<le> 1"
  by (cases "x \<in> set xs") (simp_all add: count_list_distinct count_list_0_iff)

lemma traversal_mem:
  assumes "BB \<in> set (nodes DT)" and "retained L LI BB" and "i \<in> set (insts g BB)"
  shows "i \<in> set (traversal L DT LI g)"
  using assms by (auto simp: traversal_def visit_order_def)

lemma picks_parent:
  assumes "simplified_form L DT g P D"
  shows "\<forall>h \<in> set (picks spec L DT g P D [] (traversal L DT LI g)). parent g h \<noteq> P"
  using set_picks [of spec L DT g P D "[]" "traversal L DT LI g"] traversal_parent [OF assms]
  by auto

lemma relocated_changes:
  assumes "H \<noteq> []" and "\<forall>h \<in> set H. parent g h \<noteq> P"
  shows "relocated g P D H \<noteq> g"
proof
  assume eq: "relocated g P D H = g"
  obtain h where h: "h \<in> set H" using assms(1) by (cases H) auto
  have "parent (relocated g P D H) h = P" using h by (simp add: parent_relocated)
  then show False using eq assms(2) h by auto
qed

lemma picks_eligible:
  "\<forall>h \<in> set (picks spec L DT g P D [] xs). checkInstructionType (instr g h) \<and> spec h"
  using picks_prefix [of spec L DT g P D "[]" xs] by auto

lemma eligible_not_terminator: "checkInstructionType I \<Longrightarrow> \<not> isTerminator (opcode I)"
  by (cases "opcode I") (auto simp: checkInstructionType_def)

lemma getTerminator_relocated:
  assumes lk: "linked g" and T: "getTerminator g P = Some D" and bt: "blocks_terminated g"
    and el: "\<forall>h \<in> set H. checkInstructionType (instr g h)"
  shows "getTerminator (relocated g P D H) b = getTerminator g b"
proof (cases "b = P")
  case True
  have "isTerminator (opcode (instr g D))" using getTerminator_last [OF T] by simp
  then show ?thesis
    using True T insts_relocated_preheader [OF lk T, of H]
    by (simp add: getTerminator_def)
next
  case False
  show ?thesis
  proof (cases "insts g b" rule: rev_cases)
    case Nil
    then show ?thesis using False by (simp add: getTerminator_def insts_relocated_other)
  next
    case (snoc ys t)
    have "insts g b \<noteq> [] \<longrightarrow> isTerminator (opcode (instr g (last (insts g b))))"
      using bt unfolding blocks_terminated_def by (rule spec)
    then have "isTerminator (opcode (instr g t))"
      using snoc by simp
    then have "t \<notin> set H" using el eligible_not_terminator by blast
    then show ?thesis
      using False snoc by (simp add: getTerminator_def insts_relocated_other)
  qed
qed

lemma successors_relocated:
  assumes "linked g" and "getTerminator g P = Some D" and "blocks_terminated g"
    and "\<forall>h \<in> set H. checkInstructionType (instr g h)"
  shows "successors (relocated g P D H) b = successors g b"
  by (simp add: successors_def getTerminator_relocated [OF assms] split: option.splits)

section \<open>Order and stability of the choice\<close>

lemma invariant_relocated:
  assumes "\<not> contains L P" and "isa_Constant V \<or> Loop_isLoopInvariant L g V"
  shows "isa_Constant V \<or> Loop_isLoopInvariant L (relocated g P D H) V"
  using assms by (cases V) (auto simp: parent_relocated)

lemma moved_invariant:
  assumes "\<not> contains L P" and "j \<in> set H"
  shows "Loop_isLoopInvariant L (relocated g P D H) (VInstruction j)"
  using assms by (simp add: parent_relocated)

lemma picks_filter:
  "distinct xs \<Longrightarrow> set H \<inter> set xs = {} \<Longrightarrow>
   picks spec L DT g P D H xs
     = H @ filter (\<lambda>i. i \<in> set (picks spec L DT g P D H xs)) xs"
proof (induction xs arbitrary: H)
  case Nil
  show ?case by simp
next
  case (Cons x xs)
  let ?H' = "pick spec L DT g P D H x"
  let ?R = "picks spec L DT g P D ?H' xs"
  have xH: "x \<notin> set H" and xxs: "x \<notin> set xs" and d: "distinct xs"
    using Cons.prems by auto
  have dj: "set ?H' \<inter> set xs = {}"
    using set_pick [of spec L DT g P D H x] Cons.prems by auto
  have IH: "?R = ?H' @ filter (\<lambda>i. i \<in> set ?R) xs" by (rule Cons.IH [OF d dj])
  from pick_cases [of spec L DT g P D H x] show ?case
  proof
    assume e: "?H' = H"
    have "set ?R \<subseteq> set H \<union> set xs" unfolding e by (rule set_picks)
    then have "x \<notin> set ?R" using xH xxs by auto
    then show ?thesis using IH e by simp
  next
    assume "?H' = H @ [x] \<and> checkInstructionType (instr g x) \<and> spec x"
    then have e: "?H' = H @ [x]" by simp
    have "x \<in> set ?R" using picks_prefix [of spec L DT g P D ?H' xs] e by auto
    then show ?thesis using IH e by simp
  qed
qed

lemma picks_distinct:
  assumes "distinct xs"
  shows "distinct (picks spec L DT g P D [] xs)"
proof -
  have "picks spec L DT g P D [] xs
          = filter (\<lambda>i. i \<in> set (picks spec L DT g P D [] xs)) xs"
    using picks_filter [OF assms, of "[]" spec L DT g P D] by simp
  then show ?thesis using assms by (metis distinct_filter)
qed

section \<open>The function a run leaves behind is again in the form the pass relies on\<close>

lemma distinct_insert_middle:
  "distinct (as @ bs) \<Longrightarrow> distinct H \<Longrightarrow> set H \<inter> set (as @ bs) = {}
   \<Longrightarrow> distinct (as @ H @ bs)"
  by auto

lemma linked_relocated:
  assumes lk: "linked g" and D: "D \<in> set (insts g P)" and dH: "distinct H"
    and HP: "\<forall>h \<in> set H. parent g h \<noteq> P"
  shows "linked (relocated g P D H)"
proof -
  have dist: "\<And>b. distinct (insts g b)" using lk by (simp add: linked_def)
  have par: "\<And>b i. i \<in> set (insts g b) \<Longrightarrow> parent g i = b" using lk by (auto simp: linked_def)
  let ?l = "insts g P"
  let ?tw = "takeWhile (\<lambda>j. j \<noteq> D) ?l"
  let ?dw = "dropWhile (\<lambda>j. j \<noteq> D) ?l"
  have l: "?tw @ ?dw = ?l" by simp
  have dl: "distinct (?tw @ ?dw)" unfolding l by (rule dist)
  have sub: "set ?tw \<union> set ?dw = set ?l" using l by (metis set_append)
  have dj: "set H \<inter> set ?l = {}" using HP par by auto
  have dj': "set H \<inter> set (?tw @ ?dw) = {}" unfolding l by (rule dj)
  have "distinct (?tw @ H @ ?dw)"
    by (rule distinct_insert_middle [OF dl dH dj'])
  moreover have "\<forall>i \<in> set (?tw @ H @ ?dw). parent (relocated g P D H) i = P"
    using sub par by (auto simp: parent_relocated)
  ultimately have atP: "distinct (insts (relocated g P D H) P)
      \<and> (\<forall>i \<in> set (insts (relocated g P D H) P). parent (relocated g P D H) i = P)"
    by (simp add: relocated_def)
  have other: "\<And>b. b \<noteq> P \<Longrightarrow> distinct (insts (relocated g P D H) b)
      \<and> (\<forall>i \<in> set (insts (relocated g P D H) b). parent (relocated g P D H) i = b)"
    using dist par by (simp add: insts_relocated_other parent_relocated)
  show ?thesis
    unfolding linked_def using atP other by metis
qed

lemma getTerminator_relocated_preheader:
  assumes "linked g" and "getTerminator g P = Some D"
  shows "getTerminator (relocated g P D H) P = Some D"
  using getTerminator_last [OF assms(2)] insts_relocated_preheader [OF assms, of H]
  by (simp add: getTerminator_def)

lemma simplified_form_relocated:
  assumes sf: "simplified_form L DT g P D"
  shows "simplified_form L DT
           (relocated g P D (picks spec L DT g P D [] (traversal L DT LI g))) P D"
proof -
  let ?H = "picks spec L DT g P D [] (traversal L DT LI g)"
  have lk: "linked g" and T: "getTerminator g P = Some D"
    using sf by (simp_all add: simplified_form_def)
  have "linked (relocated g P D ?H)"
    by (rule linked_relocated [OF lk getTerminator_mem [OF T]
          picks_distinct [OF traversal_distinct [OF sf]] picks_parent [OF sf]])
  moreover have "getTerminator (relocated g P D ?H) P = Some D"
    by (rule getTerminator_relocated_preheader [OF lk T])
  ultimately show ?thesis using sf by (simp add: simplified_form_def)
qed

lemma visit_order_relocated:
  assumes "\<not> contains L P"
  shows "visit_order L LI (relocated g P D H) ns
          = filter (\<lambda>i. i \<notin> set H) (visit_order L LI g ns)"
proof (induction ns)
  case Nil
  show ?case by simp
next
  case (Cons BB ns)
  show ?case
  proof (cases "retained L LI BB")
    case True
    then have "BB \<noteq> P" using assms by (auto simp: retained_def)
    then show ?thesis using True Cons by (simp add: visit_order_Cons insts_relocated_other)
  next
    case False
    then show ?thesis using Cons by (simp add: visit_order_Cons)
  qed
qed

lemma defs_before_uses_split:
  "defs_before_uses g (T1 @ x # T2) \<Longrightarrow> checkInstructionType (instr g x) \<Longrightarrow>
   j \<in> set (x # T2) \<Longrightarrow> VInstruction j \<notin> set (operands (instr g x))"
  by (induction T1) auto

lemma picks_none:
  "\<forall>x \<in> set xs. \<not> hoistable spec L DT g x \<Longrightarrow> picks spec L DT g P D [] xs = []"
  by (induction xs) (simp_all add: pick_def relocated_Nil)

lemma left_behind_not_hoistable:
  assumes nP: "\<not> contains L P" and dbu: "defs_before_uses g T"
    and x: "x \<in> set T" and xH: "x \<notin> set (picks spec L DT g P D [] T)"
  shows "\<not> hoistable spec L DT (relocated g P D (picks spec L DT g P D [] T)) x"
proof
  let ?H = "picks spec L DT g P D [] T"
  assume h: "hoistable spec L DT (relocated g P D ?H) x"
  obtain T1 T2 where T: "T = T1 @ x # T2" using x by (meson split_list)
  let ?K = "picks spec L DT g P D [] T1"
  let ?K' = "pick spec L DT g P D ?K x"
  have HK: "?H = picks spec L DT g P D ?K' T2"
    unfolding T by (simp only: picks_append picks_Cons)
  obtain Z where Z: "?H = ?K' @ Z" "set Z \<subseteq> set T2"
    using picks_prefix [of spec L DT g P D ?K' T2] HK by auto
  have "x \<notin> set ?K'" using xH Z(1) by auto
  then have K': "?K' = ?K" and nh: "\<not> hoistable spec L DT (relocated g P D ?K) x"
    by (auto simp: pick_def split: if_splits)
  have el: "checkInstructionType (instr g x)" and sp: "spec x"
    and inv: "\<forall>V \<in> set (operands (instr g x)).
                isa_Constant V \<or> Loop_isLoopInvariant L (relocated g P D ?H) V"
    using h by (simp_all add: hoistable_relocated)
  obtain V where V: "V \<in> set (operands (instr g x))" "\<not> isa_Constant V"
    "\<not> Loop_isLoopInvariant L (relocated g P D ?K) V"
    using nh el sp by (auto simp: hoistable_relocated)
  obtain j where j: "V = VInstruction j" using V(3) by (cases V) auto
  have c1: "contains L (if j \<in> set ?K then P else parent g j)"
    using V(3) j by (simp add: parent_relocated)
  then have jK: "j \<notin> set ?K" and cj: "contains L (parent g j)"
    using nP by (auto split: if_splits)
  have "Loop_isLoopInvariant L (relocated g P D ?H) V" using inv V(1,2) by blast
  then have "\<not> contains L (if j \<in> set ?H then P else parent g j)"
    using j by (simp add: parent_relocated)
  then have "j \<in> set ?H" using cj by (auto split: if_splits)
  then have "j \<in> set Z" using Z(1) K' jK by auto
  then have "j \<in> set (x # T2)" using Z(2) by auto
  then have "VInstruction j \<notin> set (operands (instr g x))"
    using defs_before_uses_split [of g T1 x T2 j] dbu el T by blast
  then show False using V(1) j by simp
qed

section \<open>Properties of the safety checker\<close>

text \<open>
  C1.  The claim: whenever the parent block of an instruction dominates every exit block
  of the loop, \<open>safeToHoist\<close> returns true, also for an instruction that is not safe to
  execute speculatively.  The pass does not do this.  In the one-block loop the division
  \<open>%4\<close> sits in block 1, which dominates the only exit block 2, and the division is not
  safe to execute speculatively; \<open>safeToHoist\<close> returns false for it.
\<close>

theorem safeToHoist_rejects_dominating_division:
  "exits ex_loop = [2] \<and> dominates ex_dt (parent ex_func 4) 2 \<and> \<not> ex_spec 4
   \<and> \<not> safeToHoist ex_spec ex_loop ex_dt ex_func 4"
  by (simp add: ex_loop_def ex_dt_def ex_func_def ex_spec_def safeToHoist_def
        dominatesExits_def)

text \<open>
  C2.  For every loop and every instruction \<open>dominatesExits\<close> returns false: its
  accumulator starts as false and is only ever conjoined with further answers.  Hence
  \<open>safeToHoist\<close> agrees with the speculative-safety oracle everywhere.
\<close>

theorem dominatesExits_always_false:
  "\<not> dominatesExits L DT g I \<and> safeToHoist spec L DT g I = spec I"
  by (simp add: safeToHoist_def dominatesExits_def exits_loop_False)

section \<open>Properties of the invariance classifier\<close>

text \<open>
  C3.  An instruction whose opcode is outside the eligible types (a load, for one) is
  never classified as invariant, whatever its operands are; and on an input in the form
  the pass relies on, a run of \<open>hoistInstructions\<close> returns without having recorded or
  moved it, whatever the speculative-safety oracle answers.
\<close>

theorem ineligible_never_hoisted:
  assumes "\<not> checkInstructionType (instr g I)"
  shows "\<not> isLoopInvariant L g I
    \<and> (simplified_form L DT g P D \<longrightarrow>
        (\<exists>s. hoistInstructions spec L DT LI g Instrs = Some (Inr s)
           \<and> I \<notin> set (drop (length Instrs) (Instructions s))
           \<and> parent (F s) I = parent g I
           \<and> (\<forall>b. (I \<in> set (insts (F s) b)) = (I \<in> set (insts g b)))))"
proof (intro conjI impI)
  show "\<not> isLoopInvariant L g I" using assms by (simp add: isLoopInvariant_def)
next
  assume sf: "simplified_form L DT g P D"
  let ?T = "traversal L DT LI g"
  let ?H = "picks spec L DT g P D [] ?T"
  let ?s = "reached g P D Instrs ?H ?T"
  have lk: "linked g" and T: "getTerminator g P = Some D"
    using sf by (simp_all add: simplified_form_def)
  have IH: "I \<notin> set ?H" using picks_eligible [of spec L DT g P D ?T] assms by blast
  have run: "hoistInstructions spec L DT LI g Instrs = Some (Inr ?s)"
    by (rule hoistInstructions_reached [OF sf])
  have a: "I \<notin> set (drop (length Instrs) (Instructions ?s))"
    using IH by (simp add: reached_def)
  have b: "parent (F ?s) I = parent g I"
    using IH by (simp add: reached_def parent_relocated)
  have c: "\<forall>b. (I \<in> set (insts (F ?s) b)) = (I \<in> set (insts g b))"
  proof
    fix b
    show "(I \<in> set (insts (F ?s) b)) = (I \<in> set (insts g b))"
    proof (cases "b = P")
      case True
      have "set (insts g P) = set (butlast (insts g P) @ [D])"
        using getTerminator_last [OF T] by simp
      then show ?thesis
        using True IH insts_relocated_preheader [OF lk T, of ?H]
        by (auto simp: reached_def)
    next
      case False
      then show ?thesis using IH by (simp add: reached_def insts_relocated_other)
    qed
  qed
  show "\<exists>s. hoistInstructions spec L DT LI g Instrs = Some (Inr s)
           \<and> I \<notin> set (drop (length Instrs) (Instructions s))
           \<and> parent (F s) I = parent g I
           \<and> (\<forall>b. (I \<in> set (insts (F s) b)) = (I \<in> set (insts g b)))"
    using run a b c by blast
qed

theorem ineligible_never_hoisted_witness:
  "\<not> checkInstructionType (instr ex_func 6)
   \<and> opcode (instr ex_func 6) = MemoryOp Load
   \<and> operands (instr ex_func 6) = [VArgument 3]
   \<and> \<not> isLoopInvariant ex_loop ex_func 6
   \<and> (\<exists>s. hoistInstructions (\<lambda>_. True) ex_loop ex_dt ex_li ex_func [] = Some (Inr s)
           \<and> 6 \<notin> set (drop (length ([] :: iid list)) (Instructions s))
           \<and> parent (F s) 6 = parent ex_func 6
           \<and> (\<forall>b. (6 \<in> set (insts (F s) b)) = (6 \<in> set (insts ex_func b))))"
proof -
  have h: "\<not> checkInstructionType (instr ex_func 6)"
    by (simp add: ex_func_def ex_instr_def checkInstructionType_def)
  have o: "opcode (instr ex_func 6) = MemoryOp Load"
    "operands (instr ex_func 6) = [VArgument 3]"
    by (simp_all add: ex_func_def ex_instr_def)
  show ?thesis
    using h o ex_simplified
      ineligible_never_hoisted [OF h, of ex_loop ex_dt 0 0 "\<lambda>_. True" ex_li "[]"]
    by blast
qed

text \<open>
  C4.  For an instruction of an eligible type, \<open>isLoopInvariant\<close> returns true exactly
  when every operand is a constant, a value that is not an instruction (an argument or a
  block label), or the result of an instruction whose parent block is not a member of
  the loop in the function as it is when the question is asked.
\<close>

theorem isLoopInvariant_iff_operands:
  assumes "checkInstructionType (instr g I)"
  shows "isLoopInvariant L g I =
     (\<forall>V \<in> set (operands (instr g I)).
         (\<exists>c. V = VConstant c) \<or> (\<exists>a. V = VArgument a) \<or> (\<exists>b. V = VBlock b)
         \<or> (\<exists>j. V = VInstruction j \<and> parent g j \<notin> set (blocks L)))"
  using assms
  by (simp add: isLoopInvariant_def checkInstructionOperands_def operands_loop_iff operand_kinds)

theorem isLoopInvariant_iff_operands_witness:
  "checkInstructionType (instr ex_func 3)
   \<and> \<not> isLoopInvariant ex_loop ex_func 3
   \<and> isLoopInvariant ex_loop ex_func 3 =
       (\<forall>V \<in> set (operands (instr ex_func 3)).
           (\<exists>c. V = VConstant c) \<or> (\<exists>a. V = VArgument a) \<or> (\<exists>b. V = VBlock b)
           \<or> (\<exists>j. V = VInstruction j \<and> parent ex_func j \<notin> set (blocks ex_loop)))"
proof -
  have h: "checkInstructionType (instr ex_func 3)"
    by (simp add: ex_func_def ex_instr_def checkInstructionType_def)
  have n: "\<not> isLoopInvariant ex_loop ex_func 3"
    by (simp add: isLoopInvariant_def checkInstructionOperands_def ex_func_def ex_instr_def
          ex_loop_def contains_def)
  show ?thesis
    using h n isLoopInvariant_iff_operands [OF h, where L = ex_loop] by blast
qed

section \<open>Properties of the hoisting driver\<close>

text \<open>
  C5.  On an input in the form the pass relies on, one run of \<open>hoistInstructions\<close>
  returns, and the instructions it has bound to \<open>I\<close> are exactly the traversal: the
  instructions of the retained blocks as they stood before the run, block after block.
  So every instruction of every retained block is examined exactly once, and no
  instruction is examined twice, whichever instructions the run moves on its way.
\<close>

theorem hoistInstructions_examines_each_once:
  assumes "simplified_form L DT g P D"
  shows "\<exists>s. hoistInstructions spec L DT LI g Instrs = Some (Inr s)
           \<and> examined s = traversal L DT LI g
           \<and> (\<forall>BB \<in> set (nodes DT). contains L BB \<and> \<not> isInSubLoop L LI BB \<longrightarrow>
                 (\<forall>i \<in> set (insts g BB). count_list (examined s) i = 1))
           \<and> (\<forall>i. count_list (examined s) i \<le> 1)"
proof -
  let ?T = "traversal L DT LI g"
  let ?s = "reached g P D Instrs (picks spec L DT g P D [] ?T) ?T"
  have d: "distinct ?T" by (rule traversal_distinct [OF assms])
  have "hoistInstructions spec L DT LI g Instrs = Some (Inr ?s)"
    by (rule hoistInstructions_reached [OF assms])
  moreover have e: "examined ?s = ?T" by (simp add: reached_def)
  moreover have "\<forall>BB \<in> set (nodes DT). contains L BB \<and> \<not> isInSubLoop L LI BB \<longrightarrow>
                 (\<forall>i \<in> set (insts g BB). count_list (examined ?s) i = 1)"
  proof (intro ballI impI)
    fix BB i
    assume "BB \<in> set (nodes DT)" and "contains L BB \<and> \<not> isInSubLoop L LI BB"
      and "i \<in> set (insts g BB)"
    then have "i \<in> set ?T" by (intro traversal_mem [of BB]) (simp_all add: retained_def)
    then show "count_list (examined ?s) i = 1"
      unfolding e by (rule count_list_distinct [OF d])
  qed
  moreover have "\<forall>i. count_list (examined ?s) i \<le> 1"
    unfolding e using count_list_distinct_le [OF d] by blast
  ultimately show ?thesis by blast
qed

theorem hoistInstructions_examines_each_once_witness:
  "simplified_form ex_loop ex_dt ex_func 0 0
   \<and> (\<exists>s. hoistInstructions ex_spec ex_loop ex_dt ex_li ex_func [] = Some (Inr s)
           \<and> examined s = traversal ex_loop ex_dt ex_li ex_func
           \<and> (\<forall>BB \<in> set (nodes ex_dt). contains ex_loop BB \<and> \<not> isInSubLoop ex_loop ex_li BB \<longrightarrow>
                 (\<forall>i \<in> set (insts ex_func BB). count_list (examined s) i = 1))
           \<and> (\<forall>i. count_list (examined s) i \<le> 1))"
  using ex_simplified hoistInstructions_examines_each_once [OF ex_simplified, of ex_spec ex_li "[]"] by blast

text \<open>
  C6.  Let the traversal of the loop meet \<open>u = a + b\<close> and later \<open>v = u * c\<close>, with \<open>a\<close>,
  \<open>b\<close> and \<open>c\<close> invariant in the loop and both instructions accepted by \<open>safeToHoist\<close>.
  Then, on an input in the form the pass relies on, one run of \<open>runOnLoop\<close> returns, the
  list it returns contains \<open>u\<close> and later \<open>v\<close>, the preheader ends with that list followed
  by its terminator (so \<open>u\<close> stands in front of \<open>v\<close> there), and the list is the traversal
  restricted to the instructions it contains: it records them in the order in which the
  run met them.
\<close>

theorem dependent_pair_hoisted_in_order:
  assumes sf: "simplified_form L DT g P D"
    and tr: "traversal L DT LI g = T1 @ u # T2 @ v # T3"
    and u: "opcode (instr g u) = BinaryOp Add" "operands (instr g u) = [a, b]"
    and v: "opcode (instr g v) = BinaryOp Mul" "operands (instr g v) = [VInstruction u, c]"
    and a: "isa_Constant a \<or> Loop_isLoopInvariant L g a"
    and b: "isa_Constant b \<or> Loop_isLoopInvariant L g b"
    and c: "isa_Constant c \<or> Loop_isLoopInvariant L g c"
    and safe: "safeToHoist spec L DT g u" "safeToHoist spec L DT g v"
  shows "\<exists>s X Y Z. runOnLoop spec L DT LI g = Some (Inr s)
     \<and> Instructions s = X @ u # Y @ v # Z
     \<and> insts (F s) P = butlast (insts g P) @ X @ u # Y @ v # Z @ [D]
     \<and> parent (F s) u = P \<and> parent (F s) v = P
     \<and> Instructions s = filter (\<lambda>i. i \<in> set (Instructions s)) (traversal L DT LI g)"
proof -
  let ?T = "traversal L DT LI g"
  let ?H = "picks spec L DT g P D [] ?T"
  let ?s = "reached g P D [] ?H ?T"
  have lk: "linked g" and T: "getTerminator g P = Some D" and nP: "\<not> contains L P"
    using sf by (simp_all add: simplified_form_def)
  have su: "spec u" and sv: "spec v" using safe by (simp_all add: safeToHoist_spec)
  let ?X = "picks spec L DT g P D [] T1"
  have pu: "pick spec L DT g P D ?X u = ?X @ [u]"
    using u su invariant_relocated [OF nP a] invariant_relocated [OF nP b]
    by (simp add: pick_def hoistable_relocated checkInstructionType_def)
  obtain Y where Y: "picks spec L DT g P D (?X @ [u]) T2 = (?X @ [u]) @ Y"
    using picks_prefix [of spec L DT g P D "?X @ [u]" T2] by blast
  let ?M = "(?X @ [u]) @ Y"
  have "Loop_isLoopInvariant L (relocated g P D ?M) (VInstruction u)"
    by (rule moved_invariant [OF nP]) simp
  then have pv: "pick spec L DT g P D ?M v = ?M @ [v]"
    using v sv invariant_relocated [OF nP c, of D ?M]
    by (simp add: pick_def hoistable_relocated checkInstructionType_def)
  obtain Z where Z: "picks spec L DT g P D (?M @ [v]) T3 = (?M @ [v]) @ Z"
    using picks_prefix [of spec L DT g P D "?M @ [v]" T3] by blast
  have "?H = picks spec L DT g P D (pick spec L DT g P D ?X u) (T2 @ v # T3)"
    unfolding tr by (simp only: picks_append picks_Cons)
  also have "\<dots> = picks spec L DT g P D (pick spec L DT g P D ?M v) T3"
    unfolding pu by (simp only: picks_append picks_Cons Y)
  also have "\<dots> = (?M @ [v]) @ Z"
    unfolding pv by (rule Z)
  finally have H: "?H = ?X @ u # Y @ v # Z" by simp
  have run: "runOnLoop spec L DT LI g = Some (Inr ?s)"
    unfolding runOnLoop_def by (rule hoistInstructions_reached [OF sf])
  have i: "Instructions ?s = ?X @ u # Y @ v # Z" using H by (simp add: reached_def)
  have p: "insts (F ?s) P = butlast (insts g P) @ ?X @ u # Y @ v # Z @ [D]"
    using insts_relocated_preheader [OF lk T, of ?H] H by (simp add: reached_def)
  have pp: "parent (F ?s) u = P" "parent (F ?s) v = P"
    using H by (simp_all add: reached_def parent_relocated)
  have f: "Instructions ?s = filter (\<lambda>i. i \<in> set (Instructions ?s)) ?T"
    using traversal_distinct [OF sf, of LI]
      picks_filter [where xs = ?T and H = "[]" and spec = spec and L = L and DT = DT
        and g = g and P = P and D = D]
    by (simp add: reached_def)
  show ?thesis using run i p pp f by blast
qed

theorem dependent_pair_hoisted_in_order_witness:
  "simplified_form ex_loop ex_dt ex_func 0 0
   \<and> traversal ex_loop ex_dt ex_li ex_func = [1] @ 2 # [] @ 3 # [4, 5, 6, 7, 8]
   \<and> opcode (instr ex_func 2) = BinaryOp Add
   \<and> operands (instr ex_func 2) = [VArgument 0, VArgument 1]
   \<and> opcode (instr ex_func 3) = BinaryOp Mul
   \<and> operands (instr ex_func 3) = [VInstruction 2, VArgument 2]
   \<and> safeToHoist ex_spec ex_loop ex_dt ex_func 2
   \<and> safeToHoist ex_spec ex_loop ex_dt ex_func 3
   \<and> (\<exists>s X Y Z. runOnLoop ex_spec ex_loop ex_dt ex_li ex_func = Some (Inr s)
     \<and> Instructions s = X @ 2 # Y @ 3 # Z
     \<and> insts (F s) 0 = butlast (insts ex_func 0) @ X @ 2 # Y @ 3 # Z @ [0]
     \<and> parent (F s) 2 = 0 \<and> parent (F s) 3 = 0
     \<and> Instructions s
         = filter (\<lambda>i. i \<in> set (Instructions s)) (traversal ex_loop ex_dt ex_li ex_func))"
proof -
  have tr: "traversal ex_loop ex_dt ex_li ex_func = [1] @ 2 # [] @ 3 # [4, 5, 6, 7, 8]"
    by (simp add: ex_traversal)
  have u: "opcode (instr ex_func 2) = BinaryOp Add"
    "operands (instr ex_func 2) = [VArgument 0, VArgument 1]"
    by (simp_all add: ex_func_def ex_instr_def)
  have v: "opcode (instr ex_func 3) = BinaryOp Mul"
    "operands (instr ex_func 3) = [VInstruction 2, VArgument 2]"
    by (simp_all add: ex_func_def ex_instr_def)
  have a: "isa_Constant (VArgument 0) \<or> Loop_isLoopInvariant ex_loop ex_func (VArgument 0)"
    and b: "isa_Constant (VArgument 1) \<or> Loop_isLoopInvariant ex_loop ex_func (VArgument 1)"
    and c: "isa_Constant (VArgument 2) \<or> Loop_isLoopInvariant ex_loop ex_func (VArgument 2)"
    by simp_all
  have safe: "safeToHoist ex_spec ex_loop ex_dt ex_func 2"
    "safeToHoist ex_spec ex_loop ex_dt ex_func 3"
    by (simp_all add: safeToHoist_def ex_spec_def)
  show ?thesis
    using ex_simplified tr u v safe
      dependent_pair_hoisted_in_order [OF ex_simplified tr u v a b c safe]
    by blast
qed

text \<open>
  C7.  Take an input in the form the pass relies on, in which every instruction of an
  eligible type is met by the traversal after the instructions whose results it uses.
  Then a run of \<open>runOnLoop\<close> returns, and a second run on the function that the first run
  left behind returns too, with the flag false, an empty list of hoisted instructions and
  the function unchanged.
\<close>

theorem second_run_hoists_nothing:
  assumes sf: "simplified_form L DT g P D"
    and dbu: "defs_before_uses g (traversal L DT LI g)"
  shows "\<exists>s1 s2. runOnLoop spec L DT LI g = Some (Inr s1)
     \<and> runOnLoop spec L DT LI (F s1) = Some (Inr s2)
     \<and> \<not> Modified s2 \<and> Instructions s2 = [] \<and> F s2 = F s1"
proof -
  let ?T = "traversal L DT LI g"
  let ?H = "picks spec L DT g P D [] ?T"
  let ?s1 = "reached g P D [] ?H ?T"
  let ?g1 = "relocated g P D ?H"
  let ?T' = "traversal L DT LI ?g1"
  let ?H' = "picks spec L DT ?g1 P D [] ?T'"
  let ?s2 = "reached ?g1 P D [] ?H' ?T'"
  have nP: "\<not> contains L P" using sf by (simp add: simplified_form_def)
  have run1: "runOnLoop spec L DT LI g = Some (Inr ?s1)"
    unfolding runOnLoop_def by (rule hoistInstructions_reached [OF sf])
  have F1: "F ?s1 = ?g1" by (simp add: reached_def)
  have sf1: "simplified_form L DT ?g1 P D" by (rule simplified_form_relocated [OF sf])
  have run2: "runOnLoop spec L DT LI ?g1 = Some (Inr ?s2)"
    unfolding runOnLoop_def by (rule hoistInstructions_reached [OF sf1])
  have T': "?T' = filter (\<lambda>i. i \<notin> set ?H) ?T"
    unfolding traversal_def by (rule visit_order_relocated [OF nP])
  have "\<forall>x \<in> set ?T'. \<not> hoistable spec L DT ?g1 x"
    unfolding T' using left_behind_not_hoistable [OF nP dbu, of _ spec DT D] by simp
  then have H': "?H' = []" by (rule picks_none)
  have "\<not> Modified ?s2" and "Instructions ?s2 = []" and "F ?s2 = ?g1"
    unfolding H' by (simp_all add: reached_def relocated_Nil)
  then show ?thesis using run1 run2 F1 by (metis (no_types, lifting))
qed

theorem second_run_hoists_nothing_witness:
  "simplified_form ex_loop ex_dt ex_func 0 0
   \<and> defs_before_uses ex_func (traversal ex_loop ex_dt ex_li ex_func)
   \<and> (\<exists>s1 s2. runOnLoop ex_spec ex_loop ex_dt ex_li ex_func = Some (Inr s1)
     \<and> runOnLoop ex_spec ex_loop ex_dt ex_li (F s1) = Some (Inr s2)
     \<and> \<not> Modified s2 \<and> Instructions s2 = [] \<and> F s2 = F s1)"
  using ex_simplified ex_defs_before_uses
    second_run_hoists_nothing [OF ex_simplified ex_defs_before_uses, of ex_spec]
  by blast

text \<open>
  C8.  On an input in the form the pass relies on, \<open>runOnLoop\<close> returns, and the flag it
  returns is true exactly when the list of hoisted instructions is not empty, which is
  exactly when the function has changed.
\<close>

theorem hoistInstructions_changed_iff:
  assumes "simplified_form L DT g P D"
  shows "\<exists>s. runOnLoop spec L DT LI g = Some (Inr s)
           \<and> Modified s = (Instructions s \<noteq> [])
           \<and> Modified s = (F s \<noteq> g)"
proof -
  let ?H = "picks spec L DT g P D [] (traversal L DT LI g)"
  let ?s = "reached g P D [] ?H (traversal L DT LI g)"
  have "runOnLoop spec L DT LI g = Some (Inr ?s)"
    unfolding runOnLoop_def by (rule hoistInstructions_reached [OF assms])
  moreover have "Modified ?s = (Instructions ?s \<noteq> [])" by (simp add: reached_def)
  moreover have "Modified ?s = (F ?s \<noteq> g)"
    using relocated_changes [OF _ picks_parent [OF assms], of spec LI D]
    by (cases "?H = []") (simp_all add: reached_def relocated_Nil)
  ultimately show ?thesis by blast
qed

theorem hoistInstructions_changed_iff_witness:
  "simplified_form ex_loop ex_dt ex_func 0 0
   \<and> (\<exists>s. runOnLoop ex_spec ex_loop ex_dt ex_li ex_func = Some (Inr s)
           \<and> Modified s = (Instructions s \<noteq> [])
           \<and> Modified s = (F s \<noteq> ex_func))"
  using ex_simplified hoistInstructions_changed_iff [OF ex_simplified, of ex_spec ex_li]
  by blast

text \<open>
  C9.  On an input in the form the pass relies on, whose blocks all end in a terminator,
  a run of \<open>hoistInstructions\<close> returns, having appended some list \<open>H\<close> to the vector;
  the instruction table (opcodes and operand lists) is the one it started from; every
  block has the successors it had; the preheader holds what it held, in the same order,
  with \<open>H\<close> inserted directly in front of its terminator; every other block holds what it
  held, in the same order, without the instructions of \<open>H\<close>; and the parent pointers
  changed for the instructions of \<open>H\<close> only, which now point to the preheader.
\<close>

theorem hoistInstructions_frame:
  assumes "simplified_form L DT g P D" and "blocks_terminated g"
  shows "\<exists>s H. hoistInstructions spec L DT LI g Instrs = Some (Inr s)
     \<and> Instructions s = Instrs @ H
     \<and> instr (F s) = instr g
     \<and> (\<forall>b. successors (F s) b = successors g b)
     \<and> insts (F s) P = butlast (insts g P) @ H @ [D]
     \<and> (\<forall>b. b \<noteq> P \<longrightarrow> insts (F s) b = filter (\<lambda>i. i \<notin> set H) (insts g b))
     \<and> (\<forall>i. parent (F s) i = (if i \<in> set H then P else parent g i))"
proof -
  let ?T = "traversal L DT LI g"
  let ?H = "picks spec L DT g P D [] ?T"
  let ?s = "reached g P D Instrs ?H ?T"
  have lk: "linked g" and T: "getTerminator g P = Some D"
    using assms(1) by (simp_all add: simplified_form_def)
  have el: "\<forall>h \<in> set ?H. checkInstructionType (instr g h)"
    using picks_eligible [of spec L DT g P D ?T] by blast
  have "hoistInstructions spec L DT LI g Instrs = Some (Inr ?s)"
    by (rule hoistInstructions_reached [OF assms(1)])
  moreover have "Instructions ?s = Instrs @ ?H" by (simp add: reached_def)
  moreover have "instr (F ?s) = instr g" by (simp add: reached_def)
  moreover have "\<forall>b. successors (F ?s) b = successors g b"
    using successors_relocated [OF lk T assms(2) el] by (simp add: reached_def)
  moreover have "insts (F ?s) P = butlast (insts g P) @ ?H @ [D]"
    using insts_relocated_preheader [OF lk T, of ?H] by (simp add: reached_def)
  moreover have "\<forall>b. b \<noteq> P \<longrightarrow> insts (F ?s) b = filter (\<lambda>i. i \<notin> set ?H) (insts g b)"
    by (simp add: reached_def insts_relocated_other)
  moreover have "\<forall>i. parent (F ?s) i = (if i \<in> set ?H then P else parent g i)"
    by (simp add: reached_def parent_relocated)
  ultimately show ?thesis by blast
qed

theorem hoistInstructions_frame_witness:
  "simplified_form ex_loop ex_dt ex_func 0 0 \<and> blocks_terminated ex_func
   \<and> (\<exists>s H. hoistInstructions ex_spec ex_loop ex_dt ex_li ex_func [] = Some (Inr s)
     \<and> Instructions s = [] @ H
     \<and> instr (F s) = instr ex_func
     \<and> (\<forall>b. successors (F s) b = successors ex_func b)
     \<and> insts (F s) 0 = butlast (insts ex_func 0) @ H @ [0]
     \<and> (\<forall>b. b \<noteq> 0 \<longrightarrow> insts (F s) b = filter (\<lambda>i. i \<notin> set H) (insts ex_func b))
     \<and> (\<forall>i. parent (F s) i = (if i \<in> set H then 0 else parent ex_func i)))"
  using ex_simplified ex_blocks_terminated
    hoistInstructions_frame [OF ex_simplified ex_blocks_terminated, of ex_spec ex_li "[]"]
  by blast

text \<open>
  C10.  When the loop has no preheader, \<open>hoistInstructions\<close> dereferences the null
  pointer that \<open>getLoopPreheader\<close> returns, before it looks at any block.  The pass has no
  check and no handler for it: the run stops there, with no instruction examined, none
  recorded and the function as it was.
\<close>

theorem hoistInstructions_null_preheader:
  assumes "preheader L = None"
  shows "hoistInstructions spec L DT LI g Instrs =
           Some (Inl (NullDereference,
                      \<lparr>Modified = False, Instructions = Instrs, F = g, examined = []\<rparr>))"
  using assms by (simp add: hoistInstructions_def)

theorem hoistInstructions_null_preheader_witness:
  "preheader (ex_loop\<lparr>preheader := None\<rparr>) = None
   \<and> hoistInstructions ex_spec (ex_loop\<lparr>preheader := None\<rparr>) ex_dt ex_li ex_func [] =
       Some (Inl (NullDereference,
                  \<lparr>Modified = False, Instructions = [], F = ex_func, examined = []\<rparr>))"
proof -
  have h: "preheader (ex_loop\<lparr>preheader := None\<rparr>) = None" by simp
  show ?thesis
    using h hoistInstructions_null_preheader [OF h] by blast
qed

end
